theory Spec2Isabelle
  imports Main "HOL-Library.Signed_Division"
begin

section \<open>The route registry of gorouter\<close>

text \<open>
  The registry (package \<open>registry\<close>, type \<open>RouteRegistry\<close>) maps route uris to pools of
  endpoints. Its methods are embedded below. The package \<open>route\<close> (types \<open>Uri\<close>,
  \<open>Endpoint\<close> and \<open>Pool\<close>) is used by the registry but its source is not part of the
  excerpt; what the registry calls from it is modelled from the specification and marked
  as such.

  Conventions: a \<open>time.Time\<close> is an \<open>int\<close> (nanoseconds since the zero time), a
  \<open>time.Duration\<close> is an \<open>int\<close> (Go's \<open>int64\<close> nanoseconds; the only arithmetic the
  registry does on it is a division by four, which cannot overflow). Every reading of the
  clock (\<open>time.Now()\<close>) is an explicit argument. The registry's lock makes each method
  body atomic, so a method is a function from the state before to the state after.
\<close>

type_synonym time = int
type_synonym Duration = int
type_synonym Uri = string

subsection \<open>Package route, modelled from the specification\<close>

text \<open>Modelled from the spec: \<open>Uri.ToLower\<close>, which "lowercases and returns a canonical
  key". A \<open>char\<close> is a byte; the letters \<open>A\<close> to \<open>Z\<close> are mapped to \<open>a\<close> to \<open>z\<close> and every
  other byte is kept.\<close>

definition lower_char :: "char \<Rightarrow> char" where
  "lower_char c =
     (case map_of (zip ''ABCDEFGHIJKLMNOPQRSTUVWXYZ'' ''abcdefghijklmnopqrstuvwxyz'') c of
        None \<Rightarrow> c
      | Some l \<Rightarrow> l)"

definition ToLower :: "Uri \<Rightarrow> Uri" where
  "ToLower u = map lower_char u"

text \<open>Modelled from the spec: the \<open>Endpoint\<close> value type, "constructed from an address and
  metadata", whose canonical address (host:port) is its identity.\<close>

record Endpoint =
  address :: string
  tags :: "(string \<times> string) list"

definition CanonicalAddr :: "Endpoint \<Rightarrow> string" where
  "CanonicalAddr e = address e"

text \<open>Modelled from the spec: the \<open>Pool\<close> type, "an unordered collection of Endpoints
  keyed by canonical address, plus a per-pool freshness parameter supplied at creation".
  Each endpoint is stored with the time it was last put. The collection is a list with at
  most one entry for each canonical address; no operation below depends on its order
  otherwise.\<close>

record Pool =
  endpoints :: "(Endpoint \<times> time) list"
  threshold :: Duration

definition NewPool :: "Duration \<Rightarrow> Pool" where
  "NewPool d = \<lparr>endpoints = [], threshold = d\<rparr>"

text \<open>Modelled from the spec: \<open>Pool.Put\<close> "inserts or refreshes; updates the endpoint's
  last-seen timestamp to now"; a second registration of the same canonical address
  "refreshes its timestamp and metadata rather than creating a duplicate".\<close>

fun put_entry :: "time \<Rightarrow> Endpoint \<Rightarrow> (Endpoint \<times> time) list \<Rightarrow> (Endpoint \<times> time) list" where
  "put_entry now e [] = [(e, now)]"
| "put_entry now e (x # xs) =
     (if CanonicalAddr (fst x) = CanonicalAddr e then (e, now) # xs
      else x # put_entry now e xs)"

definition Put :: "time \<Rightarrow> Endpoint \<Rightarrow> Pool \<Rightarrow> Pool" where
  "Put now e p = p\<lparr>endpoints := put_entry now e (endpoints p)\<rparr>"

text \<open>Modelled from the spec: \<open>Pool.Remove\<close> "deletes by canonical address; no-op (not an
  error) if absent".\<close>

definition Remove :: "Endpoint \<Rightarrow> Pool \<Rightarrow> Pool" where
  "Remove e p =
     p\<lparr>endpoints := filter (\<lambda>x. CanonicalAddr (fst x) \<noteq> CanonicalAddr e) (endpoints p)\<rparr>"

text \<open>Modelled from the spec: \<open>Pool.IsEmpty\<close> is "true iff no endpoints remain".\<close>

definition IsEmpty :: "Pool \<Rightarrow> bool" where
  "IsEmpty p = (endpoints p = [])"

text \<open>Modelled from the spec: \<open>Pool.Each\<close> "applies fn to every endpoint"; the model gives
  the endpoints the callback is applied to.\<close>

definition Each :: "Pool \<Rightarrow> Endpoint list" where
  "Each p = map fst (endpoints p)"

text \<open>Modelled from the spec: \<open>Pool.PruneEndpoints\<close> "removes every endpoint whose
  last-seen timestamp is older than now - staleThreshold".\<close>

definition PruneEndpoints :: "time \<Rightarrow> Duration \<Rightarrow> Pool \<Rightarrow> Pool" where
  "PruneEndpoints now staleThreshold p =
     p\<lparr>endpoints := filter (\<lambda>x. \<not> snd x < now - staleThreshold) (endpoints p)\<rparr>"

text \<open>Modelled from the spec: \<open>Uri.NextWildcard\<close> "produces the next, strictly more
  general, wildcard form of the URI by replacing the left-most host label with a wildcard
  marker; it reports failure once no further generalization is possible (e.g., the
  pattern is already a single wildcard label, or has no further labels to generalize)",
  and "a URI with a path suffix preserves the path suffix unchanged while only the host
  portion is generalized". The host is the part before the first slash. \<open>host_labels\<close>
  are the labels of the host that a wildcard can still replace: the host without a
  leading wildcard label. The second component of the result is true when the call
  fails. The spec does not say which uri comes with the failure: it is
  \<open>exhausted u\<close>, for a parameter \<open>exhausted\<close>.\<close>

definition uri_host :: "Uri \<Rightarrow> string" where
  "uri_host u = takeWhile (\<lambda>c. c \<noteq> CHR ''/'') u"

definition uri_path :: "Uri \<Rightarrow> string" where
  "uri_path u = dropWhile (\<lambda>c. c \<noteq> CHR ''/'') u"

definition host_labels :: "Uri \<Rightarrow> string" where
  "host_labels u = (if take 2 (uri_host u) = ''*.'' then drop 2 (uri_host u) else uri_host u)"

definition NextWildcard :: "(Uri \<Rightarrow> Uri) \<Rightarrow> Uri \<Rightarrow> Uri \<times> bool" where
  "NextWildcard exhausted u =
     (let rest = dropWhile (\<lambda>c. c \<noteq> CHR ''.'') (host_labels u)
      in if rest = [] then (exhausted u, True)
         else (''*'' @ rest @ uri_path u, False))"

text \<open>The number of labels a wildcard can still replace.\<close>

definition num_labels :: "Uri \<Rightarrow> nat" where
  "num_labels u = Suc (length (filter (\<lambda>c. c = CHR ''.'') (host_labels u)))"

subsection \<open>The registry\<close>

text \<open>The fields of \<open>config.Config\<close> that \<open>NewRouteRegistry\<close> reads.\<close>

record Config =
  PruneStaleDropletsInterval :: Duration
  DropletStaleThreshold :: Duration

text \<open>The struct \<open>RouteRegistry\<close>. The map \<open>byUri\<close> holds a pointer to a pool for each
  key; every pool is created by \<open>Register\<close> for one key and stored under that key only, so
  no two keys share a pool and the map can hold the pools themselves. The field
  \<open>ticker\<close> is a pointer: \<open>None\<close> is \<open>nil\<close>, \<open>Some h\<close> is the h-th ticker created (see the
  section on the pruning cycle). The logger and the message bus are stored and not read
  by the methods below; the embedded lock is what makes each method atomic.\<close>

record RouteRegistry =
  byUri :: "Uri \<rightharpoonup> Pool"
  pruneStaleDropletsInterval :: Duration
  dropletStaleThreshold :: Duration
  ticker :: "nat option"
  timeOfLastUpdate :: time

text \<open>\<open>SpecConfig\<close> of package \<open>test_util\<close>, for the two fields above; it sets both to
  zero. Its arguments are ports, which the registry does not read.\<close>

definition SpecConfig :: Config where
  "SpecConfig = \<lparr>PruneStaleDropletsInterval = 0, DropletStaleThreshold = 0\<rparr>"

definition NewRouteRegistry :: "Config \<Rightarrow> RouteRegistry" where
  "NewRouteRegistry c =
     \<lparr>byUri = Map.empty,
      pruneStaleDropletsInterval = PruneStaleDropletsInterval c,
      dropletStaleThreshold = DropletStaleThreshold c,
      ticker = None,
      timeOfLastUpdate = 0\<rparr>"

text \<open>\<open>Register\<close>: \<open>t\<close> is the clock read on entry (line 114), \<open>now\<close> the clock read by
  \<open>pool.Put\<close>. The division is Go's, truncating towards zero.\<close>

definition Register :: "time \<Rightarrow> time \<Rightarrow> Uri \<Rightarrow> Endpoint \<Rightarrow> RouteRegistry \<Rightarrow> RouteRegistry" where
  "Register t now uri endpoint r =
     (let uri = ToLower uri;
          pool = (case byUri r uri of
                    None \<Rightarrow> NewPool (dropletStaleThreshold r sdiv 4)
                  | Some pool \<Rightarrow> pool)
      in r\<lparr>byUri := (byUri r)(uri \<mapsto> Put now endpoint pool), timeOfLastUpdate := t\<rparr>)"

definition Unregister :: "Uri \<Rightarrow> Endpoint \<Rightarrow> RouteRegistry \<Rightarrow> RouteRegistry" where
  "Unregister uri endpoint r =
     (let uri = ToLower uri
      in case byUri r uri of
           None \<Rightarrow> r
         | Some pool \<Rightarrow>
             (let pool = Remove endpoint pool
              in if IsEmpty pool then r\<lparr>byUri := (byUri r)(uri := None)\<rparr>
                 else r\<lparr>byUri := (byUri r)(uri \<mapsto> pool)\<rparr>))"

text \<open>\<open>Lookup\<close>. \<open>Uri.NextWildcard\<close> is of package \<open>route\<close>; the loop is embedded for any
  function \<open>nextWildcard\<close> that returns a uri and whether it reports an error
  (\<open>err != nil\<close>). The pair \<open>pool, found\<close> of the source is a \<open>Pool option\<close>: no stored
  pointer is \<open>nil\<close>, so \<open>found\<close> is false exactly when \<open>pool\<close> is \<open>nil\<close>, which is \<open>None\<close>.
  The loop need not end for every \<open>nextWildcard\<close>: the result is \<open>None\<close> when it runs for
  ever and \<open>Some pool\<close> when it returns \<open>pool\<close>.\<close>

partial_function (option) Lookup_loop ::
    "(Uri \<Rightarrow> Uri \<times> bool) \<Rightarrow> (Uri \<rightharpoonup> Pool) \<Rightarrow> Uri \<Rightarrow> bool \<Rightarrow> Pool option \<Rightarrow> Pool option option" where
  "Lookup_loop nextWildcard m uri err pool =
     (if pool = None \<and> \<not> err
      then (let next = nextWildcard uri
            in Lookup_loop nextWildcard m (fst next) (snd next) (m (fst next)))
      else Some pool)"

definition Lookup :: "(Uri \<Rightarrow> Uri \<times> bool) \<Rightarrow> Uri \<Rightarrow> RouteRegistry \<Rightarrow> Pool option option" where
  "Lookup nextWildcard uri r =
     (let uri = ToLower uri
      in Lookup_loop nextWildcard (byUri r) uri False (byUri r uri))"

definition NumUris :: "RouteRegistry \<Rightarrow> nat" where
  "NumUris registry = card (dom (byUri registry))"

definition TimeOfLastUpdate :: "RouteRegistry \<Rightarrow> time" where
  "TimeOfLastUpdate r = timeOfLastUpdate r"

text \<open>\<open>NumEndpoints\<close>: the callback stores the canonical address of every endpoint of every
  pool as a key of the local map \<open>uris\<close>, whose length is returned. The keys of \<open>uris\<close> are
  a set of strings.\<close>

definition NumEndpoints :: "RouteRegistry \<Rightarrow> nat" where
  "NumEndpoints r = card (\<Union>pool \<in> ran (byUri r). set (map CanonicalAddr (Each pool)))"

text \<open>\<open>pruneStaleDroplets\<close>. The body of the loop for the key \<open>k\<close> reads and writes the
  entry of \<open>k\<close> only; \<open>clock k\<close> is the clock read by \<open>PruneEndpoints\<close> for the pool of \<open>k\<close>.\<close>

definition prune_visit :: "(Uri \<Rightarrow> time) \<Rightarrow> Duration \<Rightarrow> Uri \<Rightarrow> (Uri \<rightharpoonup> Pool) \<Rightarrow> (Uri \<rightharpoonup> Pool)" where
  "prune_visit clock staleThreshold k m =
     (case m k of
        None \<Rightarrow> m
      | Some pool \<Rightarrow>
          (let pool = PruneEndpoints (clock k) staleThreshold pool
           in if IsEmpty pool then m(k := None) else m(k \<mapsto> pool)))"

text \<open>Go visits the keys of a map in an order it does not specify, each key once (the loop
  deletes no key but the one it is at). \<open>pruneStaleDroplets_in\<close> runs the loop in the
  order \<open>ks\<close>; \<open>pruneStaleDroplets\<close> is the state it ends in, which lemma
  \<open>pruneStaleDroplets_any_order\<close> shows to be the same for every order.\<close>

definition pruneStaleDroplets_in :: "Uri list \<Rightarrow> (Uri \<Rightarrow> time) \<Rightarrow> RouteRegistry \<Rightarrow> RouteRegistry" where
  "pruneStaleDroplets_in ks clock r =
     r\<lparr>byUri := fold (prune_visit clock (dropletStaleThreshold r)) ks (byUri r)\<rparr>"

definition pruneStaleDroplets :: "(Uri \<Rightarrow> time) \<Rightarrow> RouteRegistry \<Rightarrow> RouteRegistry" where
  "pruneStaleDroplets clock r =
     r\<lparr>byUri := (\<lambda>k. prune_visit clock (dropletStaleThreshold r) k (byUri r) k)\<rparr>"

text \<open>The uri and the error flag of \<open>Lookup\<close>'s loop after \<open>n\<close> iterations.\<close>

fun wildcard_iter :: "(Uri \<Rightarrow> Uri \<times> bool) \<Rightarrow> nat \<Rightarrow> Uri \<Rightarrow> Uri \<times> bool" where
  "wildcard_iter nextWildcard 0 u = (u, False)"
| "wildcard_iter nextWildcard (Suc n) u = nextWildcard (fst (wildcard_iter nextWildcard n u))"

subsection \<open>Sequences of calls\<close>

text \<open>The calls that take the registry's lock, in the order they take it. \<open>Lookup\<close> takes
  the read lock and assigns to its local variables only.\<close>

datatype call =
    CallRegister time time Uri Endpoint
  | CallUnregister Uri Endpoint
  | CallLookup Uri
  | CallSweep "Uri \<Rightarrow> time"

fun do_call :: "call \<Rightarrow> RouteRegistry \<Rightarrow> RouteRegistry" where
  "do_call (CallRegister t now uri endpoint) r = Register t now uri endpoint r"
| "do_call (CallUnregister uri endpoint) r = Unregister uri endpoint r"
| "do_call (CallLookup uri) r = r"
| "do_call (CallSweep clock) r = pruneStaleDroplets clock r"

definition do_calls :: "call list \<Rightarrow> RouteRegistry \<Rightarrow> RouteRegistry" where
  "do_calls cs r = fold do_call cs r"

text \<open>The time of the last \<open>Register\<close> among the calls, if there is one.\<close>

fun last_register :: "call list \<Rightarrow> time option" where
  "last_register [] = None"
| "last_register (c # cs) =
     (case last_register cs of
        Some t \<Rightarrow> Some t
      | None \<Rightarrow> (case c of CallRegister t now uri endpoint \<Rightarrow> Some t | _ \<Rightarrow> None))"

subsection \<open>The pruning cycle\<close>

text \<open>\<open>StartPruningCycle\<close> creates a ticker and a goroutine; both live outside the
  registry struct, which holds a pointer to the ticker. The state of the program is the
  registry, the tickers created so far (a pointer to a ticker is its index) and the
  goroutines started so far.

  A \<open>time.Ticker\<close> sends ticks on its channel \<open>C\<close>, of capacity one, until it is stopped;
  \<open>Stop\<close> does not close or empty the channel.\<close>

record Ticker =
  period :: Duration
  running :: bool
  pending :: bool

text \<open>Where a sweeping goroutine is in its loop (lines 171 to 177): about to evaluate
  \<open>r.ticker.C\<close> and enter the select; waiting in the select on the channel of a ticker;
  or past the receive and about to call \<open>pruneStaleDroplets\<close>.\<close>

datatype sweeper = AtSelect | Waiting nat | AtPrune

record System =
  registry :: RouteRegistry
  tickers :: "Ticker list"
  sweepers :: "sweeper list"

definition NewSystem :: "Config \<Rightarrow> System" where
  "NewSystem c = \<lparr>registry = NewRouteRegistry c, tickers = [], sweepers = []\<rparr>"

definition StartPruningCycle :: "System \<Rightarrow> System" where
  "StartPruningCycle s =
     (let r = registry s
      in if pruneStaleDropletsInterval r > 0
         then s\<lparr>registry := r\<lparr>ticker := Some (length (tickers s))\<rparr>,
                tickers := tickers s @
                  [\<lparr>period = pruneStaleDropletsInterval r, running = True, pending = False\<rparr>],
                sweepers := sweepers s @ [AtSelect]\<rparr>
         else s)"

definition StopPruningCycle :: "System \<Rightarrow> System" where
  "StopPruningCycle s =
     (case ticker (registry s) of
        None \<Rightarrow> s
      | Some h \<Rightarrow> s\<lparr>tickers := (tickers s)[h := (tickers s ! h)\<lparr>running := False\<rparr>]\<rparr>)"

text \<open>The steps of the program: the two calls above, a running ticker sending a tick, and
  the three steps of a goroutine's loop. A step that cannot be taken in a state gives
  \<open>None\<close>.\<close>

datatype event =
    Start
  | Stop
  | Tick nat
  | Select nat
  | Receive nat
  | Prune nat "Uri \<Rightarrow> time"

fun step :: "event \<Rightarrow> System \<Rightarrow> System option" where
  "step Start s = Some (StartPruningCycle s)"
| "step Stop s = Some (StopPruningCycle s)"
| "step (Tick h) s =
     (if h < length (tickers s) \<and> running (tickers s ! h)
      then Some (s\<lparr>tickers := (tickers s)[h := (tickers s ! h)\<lparr>pending := True\<rparr>]\<rparr>)
      else None)"
| "step (Select g) s =
     (if g < length (sweepers s) \<and> sweepers s ! g = AtSelect
      then (case ticker (registry s) of
              None \<Rightarrow> None
            | Some h \<Rightarrow> Some (s\<lparr>sweepers := (sweepers s)[g := Waiting h]\<rparr>))
      else None)"
| "step (Receive g) s =
     (if g < length (sweepers s)
      then (case sweepers s ! g of
              Waiting h \<Rightarrow>
                (if h < length (tickers s) \<and> pending (tickers s ! h)
                 then Some (s\<lparr>tickers := (tickers s)[h := (tickers s ! h)\<lparr>pending := False\<rparr>],
                              sweepers := (sweepers s)[g := AtPrune]\<rparr>)
                 else None)
            | _ \<Rightarrow> None)
      else None)"
| "step (Prune g clock) s =
     (if g < length (sweepers s) \<and> sweepers s ! g = AtPrune
      then Some (s\<lparr>registry := pruneStaleDroplets clock (registry s),
                   sweepers := (sweepers s)[g := AtSelect]\<rparr>)
      else None)"

fun run :: "event list \<Rightarrow> System \<Rightarrow> System option" where
  "run [] s = Some s"
| "run (e # es) s = (case step e s of None \<Rightarrow> None | Some s' \<Rightarrow> run es s')"

text \<open>The tickers that have not been stopped.\<close>

definition active_tickers :: "System \<Rightarrow> nat" where
  "active_tickers s = length (filter running (tickers s))"

subsection \<open>The invariant of the table, and values for the examples\<close>

definition no_empty_pool :: "RouteRegistry \<Rightarrow> bool" where
  "no_empty_pool r = (\<forall>k pool. byUri r k = Some pool \<longrightarrow> \<not> IsEmpty pool)"

text \<open>The sum of the sizes of the pools, which \<open>NumEndpoints\<close> is compared with.\<close>

definition sum_pool_sizes :: "RouteRegistry \<Rightarrow> nat" where
  "sum_pool_sizes r =
     (\<Sum>k \<in> dom (byUri r). case byUri r k of None \<Rightarrow> 0 | Some pool \<Rightarrow> length (Each pool))"

definition example_config :: Config where
  "example_config = \<lparr>PruneStaleDropletsInterval = 5, DropletStaleThreshold = 40\<rparr>"

definition endpoint_a :: Endpoint where
  "endpoint_a = \<lparr>address = ''10.0.0.1:80'', tags = []\<rparr>"

definition endpoint_b :: Endpoint where
  "endpoint_b = \<lparr>address = ''10.0.0.2:80'', tags = [(''zone'', ''z1'')]\<rparr>"

text \<open>A registry with an exact route and a wildcard route.\<close>

definition example_registry :: RouteRegistry where
  "example_registry =
     Register 3 4 ''*.example.com'' endpoint_a
       (Register 1 2 ''foo.example.com'' endpoint_b (NewRouteRegistry example_config))"

text \<open>A program state whose table has one route, and a clock that reads 100.\<close>

definition example_system :: System where
  "example_system =
     \<lparr>registry = Register 1 2 ''foo.com'' endpoint_a (NewRouteRegistry example_config),
      tickers = [], sweepers = []\<rparr>"

definition late_clock :: "Uri \<Rightarrow> time" where
  "late_clock k = 100"

text \<open>What the table holds for a key after the steps \<open>es\<close>; \<open>None\<close> when one of the steps
  cannot be taken.\<close>

definition table_after :: "event list \<Rightarrow> System \<Rightarrow> Uri \<Rightarrow> Pool option option" where
  "table_after es s k =
     (case run es s of None \<Rightarrow> None | Some s' \<Rightarrow> Some (byUri (registry s') k))"

lemmas example_defs =
  example_config_def endpoint_a_def endpoint_b_def NewRouteRegistry_def NewPool_def
  ToLower_def lower_char_def CanonicalAddr_def Put_def Remove_def IsEmpty_def Each_def
  PruneEndpoints_def

lemmas uri_defs = NextWildcard_def host_labels_def uri_host_def uri_path_def num_labels_def

section \<open>Properties\<close>

subsection \<open>Pools\<close>

lemma put_entry_not_Nil: "put_entry now e xs \<noteq> []"
  by (cases xs) auto

lemma Put_not_empty: "\<not> IsEmpty (Put now e p)"
  by (simp add: IsEmpty_def Put_def put_entry_not_Nil)

lemma put_entry_mem: "(e, now) \<in> set (put_entry now e xs)"
  by (induction xs) auto

lemma Put_Each: "e \<in> set (Each (Put now e p))"
  using put_entry_mem [of e now "endpoints p"] by (force simp: Each_def Put_def)

subsection \<open>The sweep does not depend on the order of the keys\<close>

lemma pruneStaleDroplets_byUri:
  "byUri (pruneStaleDroplets clock r) k =
     (case byUri r k of
        None \<Rightarrow> None
      | Some pool \<Rightarrow>
          (if IsEmpty (PruneEndpoints (clock k) (dropletStaleThreshold r) pool) then None
           else Some (PruneEndpoints (clock k) (dropletStaleThreshold r) pool)))"
  by (simp add: pruneStaleDroplets_def prune_visit_def Let_def split: option.splits)

lemma prune_visit_other: "k' \<noteq> k \<Longrightarrow> prune_visit clock thr k m k' = m k'"
  by (simp add: prune_visit_def Let_def split: option.splits)

lemma prune_visit_cong:
  "m k = m' k \<Longrightarrow> prune_visit clock thr k m k = prune_visit clock thr k m' k"
  by (simp add: prune_visit_def Let_def split: option.splits)

lemma prune_visit_absent: "m k = None \<Longrightarrow> prune_visit clock thr k m k = None"
  by (simp add: prune_visit_def)

lemma fold_prune_visit_notin:
  "k \<notin> set ks \<Longrightarrow> fold (prune_visit clock thr) ks m k = m k"
  by (induction ks arbitrary: m) (auto simp: prune_visit_other)

lemma fold_prune_visit_in:
  "distinct ks \<Longrightarrow> k \<in> set ks \<Longrightarrow>
   fold (prune_visit clock thr) ks m k = prune_visit clock thr k m k"
proof (induction ks arbitrary: m)
  case Nil
  then show ?case by simp
next
  case (Cons a ks)
  show ?case
  proof (cases "k = a")
    case True
    with Cons.prems have "k \<notin> set ks" by simp
    then show ?thesis using True by (simp add: fold_prune_visit_notin)
  next
    case False
    with Cons.prems have "distinct ks" "k \<in> set ks" by simp_all
    then have "fold (prune_visit clock thr) ks (prune_visit clock thr a m) k
        = prune_visit clock thr k (prune_visit clock thr a m) k"
      by (rule Cons.IH)
    also have "\<dots> = prune_visit clock thr k m k"
      by (rule prune_visit_cong) (simp add: prune_visit_other False)
    finally show ?thesis by simp
  qed
qed

lemma pruneStaleDroplets_any_order:
  assumes "distinct ks" and "set ks = dom (byUri r)"
  shows "pruneStaleDroplets_in ks clock r = pruneStaleDroplets clock r"
proof -
  have "fold (prune_visit clock (dropletStaleThreshold r)) ks (byUri r) k
      = prune_visit clock (dropletStaleThreshold r) k (byUri r) k" for k
  proof (cases "k \<in> set ks")
    case True
    then show ?thesis using assms(1) by (simp add: fold_prune_visit_in)
  next
    case False
    then have "byUri r k = None" using assms(2) by auto
    then show ?thesis using False by (simp add: fold_prune_visit_notin prune_visit_absent)
  qed
  then have "fold (prune_visit clock (dropletStaleThreshold r)) ks (byUri r)
      = (\<lambda>k. prune_visit clock (dropletStaleThreshold r) k (byUri r) k)"
    by (rule ext)
  then show ?thesis
    by (simp add: pruneStaleDroplets_in_def pruneStaleDroplets_def)
qed

subsection \<open>No route with an empty pool\<close>

lemma NewRouteRegistry_no_empty: "no_empty_pool (NewRouteRegistry c)"
  by (simp add: no_empty_pool_def NewRouteRegistry_def)

lemma Register_no_empty: "no_empty_pool r \<Longrightarrow> no_empty_pool (Register t now uri e r)"
  by (simp add: no_empty_pool_def Register_def Let_def Put_not_empty)

lemma Unregister_no_empty: "no_empty_pool r \<Longrightarrow> no_empty_pool (Unregister uri e r)"
  by (auto simp: no_empty_pool_def Unregister_def Let_def split: option.splits if_splits)

lemma pruneStaleDroplets_no_empty: "no_empty_pool (pruneStaleDroplets clock r)"
  by (auto simp: no_empty_pool_def pruneStaleDroplets_byUri split: option.splits if_splits)

lemma do_call_no_empty: "no_empty_pool r \<Longrightarrow> no_empty_pool (do_call c r)"
  by (cases c) (simp_all add: Register_no_empty Unregister_no_empty pruneStaleDroplets_no_empty)

lemma fold_do_call_no_empty: "no_empty_pool r \<Longrightarrow> no_empty_pool (fold do_call cs r)"
  by (induction cs arbitrary: r) (simp_all add: do_call_no_empty)

text \<open>Claim C1. After any sequence of \<open>Register\<close>, \<open>Unregister\<close>, \<open>Lookup\<close> and sweep calls
  on a fresh registry, every key of the map has a pool that is not empty.\<close>

theorem registry_has_no_empty_pool:
  "byUri (do_calls cs (NewRouteRegistry c)) k = Some pool \<Longrightarrow> \<not> IsEmpty pool"
  using fold_do_call_no_empty [OF NewRouteRegistry_no_empty, of cs c]
  by (simp add: no_empty_pool_def do_calls_def)

theorem registry_has_no_empty_pool_witness:
  "byUri (do_calls [CallRegister 1 2 ''Foo.Com'' endpoint_a, CallRegister 3 4 ''bar.com'' endpoint_b,
                    CallUnregister ''BAR.com'' endpoint_b, CallSweep (\<lambda>k. 30)]
            (NewRouteRegistry example_config)) ''foo.com''
     = Some \<lparr>endpoints = [(endpoint_a, 2)], threshold = 10\<rparr>
   \<and> \<not> IsEmpty \<lparr>endpoints = [(endpoint_a, 2)], threshold = 10\<rparr>"
proof -
  have h: "byUri (do_calls [CallRegister 1 2 ''Foo.Com'' endpoint_a, CallRegister 3 4 ''bar.com'' endpoint_b,
                    CallUnregister ''BAR.com'' endpoint_b, CallSweep (\<lambda>k. 30)]
            (NewRouteRegistry example_config)) ''foo.com''
     = Some \<lparr>endpoints = [(endpoint_a, 2)], threshold = 10\<rparr>"
    by (simp add: do_calls_def Register_def Unregister_def pruneStaleDroplets_byUri example_defs)
  show ?thesis using h registry_has_no_empty_pool [OF h] by simp
qed

subsection \<open>The time of the last update\<close>

lemma do_call_time:
  "timeOfLastUpdate (do_call c r) =
     (case c of CallRegister t now uri endpoint \<Rightarrow> t | _ \<Rightarrow> timeOfLastUpdate r)"
  by (cases c)
     (simp_all add: Register_def Unregister_def pruneStaleDroplets_def Let_def
        split: option.splits)

lemma fold_do_call_time:
  "timeOfLastUpdate (fold do_call cs r) =
     (case last_register cs of Some t \<Rightarrow> t | None \<Rightarrow> timeOfLastUpdate r)"
proof (induction cs arbitrary: r)
  case Nil
  then show ?case by simp
next
  case (Cons c cs)
  show ?case
    by (simp add: Cons.IH do_call_time split: option.splits call.splits)
qed

text \<open>Claim C9. \<open>TimeOfLastUpdate\<close> is the time read by the last \<open>Register\<close> call:
  \<open>Register\<close> sets it to its own reading of the clock, \<open>Unregister\<close> and the sweep leave it
  as it is, and \<open>Lookup\<close> writes nothing; so after any sequence of calls it is the time of
  the last \<open>Register\<close> of the sequence, or what it was before if there is none.\<close>

theorem TimeOfLastUpdate_is_last_Register:
  "TimeOfLastUpdate (Register t now uri endpoint r) = t
   \<and> TimeOfLastUpdate (Unregister uri endpoint r) = TimeOfLastUpdate r
   \<and> TimeOfLastUpdate (pruneStaleDroplets clock r) = TimeOfLastUpdate r
   \<and> TimeOfLastUpdate (do_call (CallLookup uri) r) = TimeOfLastUpdate r
   \<and> TimeOfLastUpdate (do_calls cs r) =
       (case last_register cs of Some t' \<Rightarrow> t' | None \<Rightarrow> TimeOfLastUpdate r)"
proof -
  have "TimeOfLastUpdate (Register t now uri endpoint r) = t"
    using do_call_time [of "CallRegister t now uri endpoint" r]
    by (simp add: TimeOfLastUpdate_def)
  moreover have "TimeOfLastUpdate (Unregister uri endpoint r) = TimeOfLastUpdate r"
    using do_call_time [of "CallUnregister uri endpoint" r]
    by (simp add: TimeOfLastUpdate_def)
  moreover have "TimeOfLastUpdate (pruneStaleDroplets clock r) = TimeOfLastUpdate r"
    using do_call_time [of "CallSweep clock" r]
    by (simp add: TimeOfLastUpdate_def)
  moreover have "TimeOfLastUpdate (do_call (CallLookup uri) r) = TimeOfLastUpdate r"
    by simp
  moreover have "TimeOfLastUpdate (do_calls cs r) =
       (case last_register cs of Some t' \<Rightarrow> t' | None \<Rightarrow> TimeOfLastUpdate r)"
    by (simp add: TimeOfLastUpdate_def do_calls_def fold_do_call_time split: option.splits)
  ultimately show ?thesis by blast
qed

subsection \<open>Register\<close>

lemma sdiv_4_quarter: "\<bar>d - 4 * (d sdiv 4)\<bar> < (4::int)"
  apply (simp add: signed_divide_int_def sgn_if)
  apply presburger
  done

lemma Put_threshold: "threshold (Put now e p) = threshold p"
  by (simp add: Put_def)

text \<open>Claim C5. \<open>Register\<close> is a total function (it has no error result). It stores a pool
  under the lowercased uri and changes no other key; the pool holds the endpoint; when the
  key was absent the pool is a new one that holds this endpoint only and whose threshold
  is the registry's staleness threshold divided by four (Go's division: the quotient times
  four differs from the threshold by less than four); when the key was present the pool is
  the old one after \<open>Put\<close>; the time of the last update is the time read on entry, and no
  other field changes.\<close>

theorem Register_effect:
  "\<exists>pool. byUri (Register t now uri endpoint r) = (byUri r)(ToLower uri \<mapsto> pool)
     \<and> endpoint \<in> set (Each pool)
     \<and> (case byUri r (ToLower uri) of
          None \<Rightarrow> pool = Put now endpoint (NewPool (dropletStaleThreshold r sdiv 4))
                  \<and> Each pool = [endpoint]
                  \<and> threshold pool = dropletStaleThreshold r sdiv 4
                  \<and> \<bar>dropletStaleThreshold r - 4 * threshold pool\<bar> < 4
        | Some old \<Rightarrow> pool = Put now endpoint old \<and> threshold pool = threshold old)
     \<and> TimeOfLastUpdate (Register t now uri endpoint r) = t
     \<and> dropletStaleThreshold (Register t now uri endpoint r) = dropletStaleThreshold r
     \<and> pruneStaleDropletsInterval (Register t now uri endpoint r) = pruneStaleDropletsInterval r
     \<and> ticker (Register t now uri endpoint r) = ticker r"
proof (cases "byUri r (ToLower uri)")
  case None
  let ?q = "dropletStaleThreshold r sdiv 4"
  let ?pool = "Put now endpoint (NewPool ?q)"
  have "byUri (Register t now uri endpoint r) = (byUri r)(ToLower uri \<mapsto> ?pool)"
    using None by (simp add: Register_def Let_def)
  moreover have "endpoint \<in> set (Each ?pool)" by (rule Put_Each)
  moreover have "Each ?pool = [endpoint]" by (simp add: Each_def Put_def NewPool_def)
  moreover have "threshold ?pool = ?q" by (simp add: Put_def NewPool_def)
  moreover have "\<bar>dropletStaleThreshold r - 4 * threshold ?pool\<bar> < 4"
    using sdiv_4_quarter [of "dropletStaleThreshold r"] by (simp add: Put_def NewPool_def)
  ultimately show ?thesis
    using None by (auto simp: Register_def Let_def TimeOfLastUpdate_def)
next
  case (Some old)
  let ?pool = "Put now endpoint old"
  have "byUri (Register t now uri endpoint r) = (byUri r)(ToLower uri \<mapsto> ?pool)"
    using Some by (simp add: Register_def Let_def)
  moreover have "endpoint \<in> set (Each ?pool)" by (rule Put_Each)
  moreover have "threshold ?pool = threshold old" by (rule Put_threshold)
  ultimately show ?thesis
    using Some by (auto simp: Register_def Let_def TimeOfLastUpdate_def)
qed

subsection \<open>The loop of Lookup\<close>

lemma Lookup_loop_stop:
  "pool \<noteq> None \<or> err \<Longrightarrow> Lookup_loop nw m uri err pool = Some pool"
  by (subst Lookup_loop.simps) auto

lemma Lookup_loop_next:
  "Lookup_loop nw m uri False None =
     Lookup_loop nw m (fst (nw uri)) (snd (nw uri)) (m (fst (nw uri)))"
  by (subst Lookup_loop.simps) (simp add: Let_def)

text \<open>As long as no lookup has found a pool and no call has failed, the loop goes on.\<close>

lemma Lookup_loop_iter:
  assumes "\<And>i. i < n \<Longrightarrow>
      m (fst (wildcard_iter nw i u)) = None \<and> \<not> snd (wildcard_iter nw i u)"
  shows "Lookup_loop nw m u False (m u) =
     Lookup_loop nw m (fst (wildcard_iter nw n u)) (snd (wildcard_iter nw n u))
       (m (fst (wildcard_iter nw n u)))"
  using assms
proof (induction n)
  case 0
  show ?case by simp
next
  case (Suc n)
  have "Lookup_loop nw m u False (m u) =
     Lookup_loop nw m (fst (wildcard_iter nw n u)) (snd (wildcard_iter nw n u))
       (m (fst (wildcard_iter nw n u)))"
    using Suc.prems by (intro Suc.IH) simp
  also have "\<dots> = Lookup_loop nw m (fst (wildcard_iter nw n u)) False None"
    using Suc.prems [of n] by simp
  also have "\<dots> = Lookup_loop nw m (fst (wildcard_iter nw (Suc n) u))
       (snd (wildcard_iter nw (Suc n) u)) (m (fst (wildcard_iter nw (Suc n) u)))"
    by (simp add: Lookup_loop_next)
  finally show ?case .
qed

text \<open>The loop returns what the map holds for the uri of the first iteration at which a
  pool is found or the call has failed.\<close>

lemma Lookup_first_stop:
  assumes "\<And>i. i < n \<Longrightarrow> byUri r (fst (wildcard_iter nw i (ToLower uri))) = None
                \<and> \<not> snd (wildcard_iter nw i (ToLower uri))"
    and "byUri r (fst (wildcard_iter nw n (ToLower uri))) \<noteq> None
           \<or> snd (wildcard_iter nw n (ToLower uri))"
  shows "Lookup nw uri r = Some (byUri r (fst (wildcard_iter nw n (ToLower uri))))"
proof -
  have "Lookup nw uri r = Lookup_loop nw (byUri r) (ToLower uri) False (byUri r (ToLower uri))"
    by (simp add: Lookup_def Let_def)
  also have "\<dots> = Lookup_loop nw (byUri r) (fst (wildcard_iter nw n (ToLower uri)))
       (snd (wildcard_iter nw n (ToLower uri)))
       (byUri r (fst (wildcard_iter nw n (ToLower uri))))"
    using assms(1) by (rule Lookup_loop_iter)
  also have "\<dots> = Some (byUri r (fst (wildcard_iter nw n (ToLower uri))))"
    using assms(2) by (rule Lookup_loop_stop)
  finally show ?thesis .
qed

lemma Lookup_exact:
  "byUri r (ToLower uri) = Some pool \<Longrightarrow> Lookup nw uri r = Some (Some pool)"
  by (simp add: Lookup_def Let_def Lookup_loop_stop)

subsection \<open>Uris that differ by case\<close>

text \<open>Claim C7. Two uris differ only by case when \<open>ToLower\<close> maps them to the same uri. For
  such uris, and whatever \<open>NextWildcard\<close> does: a lookup of one after registering an
  endpoint under the other returns a pool that holds the endpoint, and \<open>Register\<close>,
  \<open>Unregister\<close> and \<open>Lookup\<close> do the same for both.\<close>

theorem case_insensitive_round_trip:
  assumes "ToLower u1 = ToLower u2"
  shows "(\<exists>pool. Lookup nextWildcard u2 (Register t now u1 endpoint r) = Some (Some pool)
            \<and> endpoint \<in> set (Each pool))
     \<and> Register t now u1 endpoint r = Register t now u2 endpoint r
     \<and> Unregister u1 endpoint r = Unregister u2 endpoint r
     \<and> Lookup nextWildcard u1 r = Lookup nextWildcard u2 r"
proof -
  obtain pool where p: "byUri (Register t now u1 endpoint r) = (byUri r)(ToLower u1 \<mapsto> pool)"
      "endpoint \<in> set (Each pool)"
    using Put_Each by (auto simp: Register_def Let_def)
  then have "byUri (Register t now u1 endpoint r) (ToLower u2) = Some pool"
    using assms by simp
  then have "Lookup nextWildcard u2 (Register t now u1 endpoint r) = Some (Some pool)"
    by (rule Lookup_exact)
  then have "\<exists>pool. Lookup nextWildcard u2 (Register t now u1 endpoint r) = Some (Some pool)
           \<and> endpoint \<in> set (Each pool)"
    using p(2) by blast
  moreover have "Register t now u1 endpoint r = Register t now u2 endpoint r"
    using assms by (simp add: Register_def)
  moreover have "Unregister u1 endpoint r = Unregister u2 endpoint r"
    using assms by (simp add: Unregister_def)
  moreover have "Lookup nextWildcard u1 r = Lookup nextWildcard u2 r"
    using assms by (simp add: Lookup_def)
  ultimately show ?thesis by blast
qed

theorem case_insensitive_round_trip_witness:
  "ToLower ''Foo.Com'' = ToLower ''foo.com''
   \<and> (\<exists>pool. Lookup (NextWildcard id) ''foo.com''
                 (Register 1 2 ''Foo.Com'' endpoint_a (NewRouteRegistry example_config))
               = Some (Some pool)
             \<and> endpoint_a \<in> set (Each pool))"
proof -
  have h: "ToLower ''Foo.Com'' = ToLower ''foo.com''"
    by (simp add: ToLower_def lower_char_def)
  show ?thesis
    using h case_insensitive_round_trip [OF h, of "NextWildcard id" 1 2 endpoint_a
        "NewRouteRegistry example_config"]
    by blast
qed

subsection \<open>Counting endpoints\<close>

lemma NumEndpoints_distinct_addresses:
  "NumEndpoints r =
     card {a. \<exists>k pool e. byUri r k = Some pool \<and> e \<in> set (Each pool) \<and> CanonicalAddr e = a}"
proof -
  have "(\<Union>pool \<in> ran (byUri r). set (map CanonicalAddr (Each pool)))
      = {a. \<exists>k pool e. byUri r k = Some pool \<and> e \<in> set (Each pool) \<and> CanonicalAddr e = a}"
    by (auto simp: ran_def)
  then show ?thesis by (simp add: NumEndpoints_def)
qed

text \<open>Claim C6. \<open>NumEndpoints\<close> is the number of distinct canonical addresses in the pools
  of the map. After registering, in a fresh registry, two endpoints with the same canonical
  address under two uris that differ after lowercasing, \<open>NumEndpoints\<close> is 1 and \<open>NumUris\<close>
  is 2, while the sizes of the pools add up to 2.\<close>

theorem NumEndpoints_counts_addresses_once:
  assumes "ToLower u1 \<noteq> ToLower u2" and "CanonicalAddr e1 = CanonicalAddr e2"
  shows "NumEndpoints (Register t2 n2 u2 e2 (Register t1 n1 u1 e1 (NewRouteRegistry c))) = 1
     \<and> NumUris (Register t2 n2 u2 e2 (Register t1 n1 u1 e1 (NewRouteRegistry c))) = 2
     \<and> sum_pool_sizes (Register t2 n2 u2 e2 (Register t1 n1 u1 e1 (NewRouteRegistry c))) = 2
     \<and> NumEndpoints r =
         card {a. \<exists>k pool e. byUri r k = Some pool \<and> e \<in> set (Each pool) \<and> CanonicalAddr e = a}"
proof -
  let ?q = "DropletStaleThreshold c sdiv 4"
  let ?p1 = "Put n1 e1 (NewPool ?q)"
  let ?p2 = "Put n2 e2 (NewPool ?q)"
  let ?r = "Register t2 n2 u2 e2 (Register t1 n1 u1 e1 (NewRouteRegistry c))"
  have m: "byUri ?r = [ToLower u1 \<mapsto> ?p1, ToLower u2 \<mapsto> ?p2]"
    using assms(1) by (simp add: Register_def NewRouteRegistry_def Let_def)
  have e1: "Each ?p1 = [e1]" and e2: "Each ?p2 = [e2]"
    by (simp_all add: Each_def Put_def NewPool_def)
  have "ran (byUri ?r) = {?p1, ?p2}"
    using assms(1) by (simp add: m ran_map_upd insert_commute)
  then have "NumEndpoints ?r = 1"
    using assms(2) by (simp add: NumEndpoints_def e1 e2)
  moreover have d: "dom (byUri ?r) = {ToLower u1, ToLower u2}"
    by (auto simp: m)
  then have "NumUris ?r = 2"
    using assms(1) by (simp add: NumUris_def)
  moreover have "sum_pool_sizes ?r = 2"
    unfolding sum_pool_sizes_def d using assms(1) by (simp add: m e1 e2)
  ultimately show ?thesis
    using NumEndpoints_distinct_addresses [of r] by blast
qed

theorem NumEndpoints_counts_addresses_once_witness:
  "ToLower ''foo.com'' \<noteq> ToLower ''bar.com''
   \<and> CanonicalAddr endpoint_a = CanonicalAddr (endpoint_a\<lparr>tags := [(''app'', ''2'')]\<rparr>)
   \<and> NumEndpoints (Register 3 4 ''bar.com'' (endpoint_a\<lparr>tags := [(''app'', ''2'')]\<rparr>)
        (Register 1 2 ''foo.com'' endpoint_a (NewRouteRegistry example_config))) = 1
   \<and> NumUris (Register 3 4 ''bar.com'' (endpoint_a\<lparr>tags := [(''app'', ''2'')]\<rparr>)
        (Register 1 2 ''foo.com'' endpoint_a (NewRouteRegistry example_config))) = 2"
proof -
  have h1: "ToLower ''foo.com'' \<noteq> ToLower ''bar.com''"
    by (simp add: ToLower_def lower_char_def)
  have h2: "CanonicalAddr endpoint_a = CanonicalAddr (endpoint_a\<lparr>tags := [(''app'', ''2'')]\<rparr>)"
    by (simp add: CanonicalAddr_def)
  show ?thesis
    using h1 h2 NumEndpoints_counts_addresses_once [OF h1 h2, of 3 4 1 2 example_config]
    by blast
qed

subsection \<open>What Lookup returns\<close>

lemma example_registry_byUri:
  "byUri example_registry =
     [''foo.example.com'' \<mapsto> \<lparr>endpoints = [(endpoint_b, 2)], threshold = 10\<rparr>,
      ''*.example.com'' \<mapsto> \<lparr>endpoints = [(endpoint_a, 4)], threshold = 10\<rparr>]"
  by (simp add: example_registry_def Register_def example_defs)

text \<open>Claim C2. \<open>Lookup\<close> lowercases the uri. If the map holds the lowercased uri, it
  returns that pool, whatever wildcard forms the map holds. Otherwise it derives the
  wildcard forms one after the other, in the order \<open>NextWildcard\<close> gives them, looks each
  one up, and returns the first pool found. If a call of \<open>NextWildcard\<close> fails and no
  looked-up uri had a pool, it returns not-found (\<open>Some None\<close>: the call returns \<open>nil\<close>). The
  uris looked up include the one that the failing call returns. \<open>wildcard_iter\<close> gives
  the uri and the error flag after \<open>i\<close> iterations; the statement holds for every function
  in the place of \<open>NextWildcard\<close>, so the order of the forms is the order in which that
  function derives them.\<close>

theorem Lookup_returns_first_match:
  "(byUri r (ToLower uri) = Some pool \<longrightarrow> Lookup nextWildcard uri r = Some (Some pool))
   \<and> ((\<forall>i<n. byUri r (fst (wildcard_iter nextWildcard i (ToLower uri))) = None
              \<and> \<not> snd (wildcard_iter nextWildcard i (ToLower uri)))
        \<and> byUri r (fst (wildcard_iter nextWildcard n (ToLower uri))) = Some pool
        \<longrightarrow> Lookup nextWildcard uri r = Some (Some pool))
   \<and> ((\<forall>i<n. byUri r (fst (wildcard_iter nextWildcard i (ToLower uri))) = None
              \<and> \<not> snd (wildcard_iter nextWildcard i (ToLower uri)))
        \<and> byUri r (fst (wildcard_iter nextWildcard n (ToLower uri))) = None
        \<and> snd (wildcard_iter nextWildcard n (ToLower uri))
        \<longrightarrow> Lookup nextWildcard uri r = Some None)"
proof (intro conjI impI)
  assume "byUri r (ToLower uri) = Some pool"
  then show "Lookup nextWildcard uri r = Some (Some pool)" by (rule Lookup_exact)
next
  assume a: "(\<forall>i<n. byUri r (fst (wildcard_iter nextWildcard i (ToLower uri))) = None
              \<and> \<not> snd (wildcard_iter nextWildcard i (ToLower uri)))
        \<and> byUri r (fst (wildcard_iter nextWildcard n (ToLower uri))) = Some pool"
  then have "Lookup nextWildcard uri r =
      Some (byUri r (fst (wildcard_iter nextWildcard n (ToLower uri))))"
    by (intro Lookup_first_stop) auto
  with a show "Lookup nextWildcard uri r = Some (Some pool)" by simp
next
  assume a: "(\<forall>i<n. byUri r (fst (wildcard_iter nextWildcard i (ToLower uri))) = None
              \<and> \<not> snd (wildcard_iter nextWildcard i (ToLower uri)))
        \<and> byUri r (fst (wildcard_iter nextWildcard n (ToLower uri))) = None
        \<and> snd (wildcard_iter nextWildcard n (ToLower uri))"
  then have "Lookup nextWildcard uri r =
      Some (byUri r (fst (wildcard_iter nextWildcard n (ToLower uri))))"
    by (intro Lookup_first_stop) auto
  with a show "Lookup nextWildcard uri r = Some None" by simp
qed

theorem Lookup_returns_first_match_witness:
  "Lookup (NextWildcard id) ''Foo.Example.com'' example_registry
     = Some (Some \<lparr>endpoints = [(endpoint_b, 2)], threshold = 10\<rparr>)
   \<and> Lookup (NextWildcard id) ''a.b.example.com'' example_registry
     = Some (Some \<lparr>endpoints = [(endpoint_a, 4)], threshold = 10\<rparr>)
   \<and> Lookup (NextWildcard id) ''a.other.com'' example_registry = Some None"
proof -
  let ?nw = "NextWildcard id"
  have l: "ToLower ''Foo.Example.com'' = ''foo.example.com''"
      "ToLower ''a.b.example.com'' = ''a.b.example.com''"
      "ToLower ''a.other.com'' = ''a.other.com''"
    by (simp_all add: ToLower_def lower_char_def)
  have a: "byUri example_registry (ToLower ''Foo.Example.com'')
      = Some \<lparr>endpoints = [(endpoint_b, 2)], threshold = 10\<rparr>"
    by (simp add: l example_registry_byUri)
  have b: "(\<forall>i<2. byUri example_registry (fst (wildcard_iter ?nw i (ToLower ''a.b.example.com''))) = None
              \<and> \<not> snd (wildcard_iter ?nw i (ToLower ''a.b.example.com'')))
        \<and> byUri example_registry (fst (wildcard_iter ?nw 2 (ToLower ''a.b.example.com'')))
            = Some \<lparr>endpoints = [(endpoint_a, 4)], threshold = 10\<rparr>"
    by (simp add: l example_registry_byUri eval_nat_numeral All_less_Suc uri_defs)
  have c: "(\<forall>i<3. byUri example_registry (fst (wildcard_iter ?nw i (ToLower ''a.other.com''))) = None
              \<and> \<not> snd (wildcard_iter ?nw i (ToLower ''a.other.com'')))
        \<and> byUri example_registry (fst (wildcard_iter ?nw 3 (ToLower ''a.other.com''))) = None
        \<and> snd (wildcard_iter ?nw 3 (ToLower ''a.other.com''))"
    by (simp add: l example_registry_byUri eval_nat_numeral All_less_Suc uri_defs)
  show ?thesis
    using a b c
      Lookup_returns_first_match [of example_registry "''Foo.Example.com''" _ ?nw]
      Lookup_returns_first_match [of example_registry "''a.b.example.com''" _ ?nw 2]
      Lookup_returns_first_match [of example_registry "''a.other.com''" _ ?nw 3]
    by blast
qed

text \<open>Claim C10. In the iteration in which \<open>NextWildcard\<close> fails, the uri it returns with
  the error is looked up before the loop ends: if \<open>k\<close> derivations have succeeded with no
  pool found, the next call fails and returns \<open>x\<close>, and the map holds \<open>x\<close>, then \<open>Lookup\<close>
  returns the pool of \<open>x\<close>. The statement holds for every function in the place of
  \<open>NextWildcard\<close>; the example uses one that returns the bare wildcard when it fails.\<close>

theorem Lookup_looks_up_exhaustion_uri:
  assumes "\<forall>i\<le>k. byUri r (fst (wildcard_iter nextWildcard i (ToLower uri))) = None
                \<and> \<not> snd (wildcard_iter nextWildcard i (ToLower uri))"
    and "nextWildcard (fst (wildcard_iter nextWildcard k (ToLower uri))) = (x, True)"
    and "byUri r x = Some pool"
  shows "Lookup nextWildcard uri r = Some (Some pool)"
proof -
  have "Lookup nextWildcard uri r =
      Some (byUri r (fst (wildcard_iter nextWildcard (Suc k) (ToLower uri))))"
    using assms by (intro Lookup_first_stop) auto
  then show ?thesis using assms(2,3) by simp
qed

theorem Lookup_looks_up_exhaustion_uri_witness:
  "byUri (Register 1 2 ''*'' endpoint_a (NewRouteRegistry example_config)) ''*''
     = Some \<lparr>endpoints = [(endpoint_a, 2)], threshold = 10\<rparr>
   \<and> NextWildcard (\<lambda>u. ''*'') ''*.com'' = (''*'', True)
   \<and> Lookup (NextWildcard (\<lambda>u. ''*'')) ''A.com''
         (Register 1 2 ''*'' endpoint_a (NewRouteRegistry example_config))
       = Some (Some \<lparr>endpoints = [(endpoint_a, 2)], threshold = 10\<rparr>)"
proof -
  let ?nw = "NextWildcard (\<lambda>u. ''*'')"
  let ?r = "Register 1 2 ''*'' endpoint_a (NewRouteRegistry example_config)"
  have l: "ToLower ''A.com'' = ''a.com''"
    by (simp add: ToLower_def lower_char_def)
  have m: "byUri ?r = [''*'' \<mapsto> \<lparr>endpoints = [(endpoint_a, 2)], threshold = 10\<rparr>]"
    by (simp add: Register_def example_defs)
  have h1: "\<forall>i\<le>1. byUri ?r (fst (wildcard_iter ?nw i (ToLower ''A.com''))) = None
                \<and> \<not> snd (wildcard_iter ?nw i (ToLower ''A.com''))"
    by (simp add: l m eval_nat_numeral All_less_Suc le_Suc_eq uri_defs)
  have h2: "?nw (fst (wildcard_iter ?nw 1 (ToLower ''A.com''))) = (''*'', True)"
    by (simp add: l uri_defs)
  have h3: "byUri ?r ''*'' = Some \<lparr>endpoints = [(endpoint_a, 2)], threshold = 10\<rparr>"
    by (simp add: m)
  have h4: "?nw ''*.com'' = (''*'', True)"
    by (simp add: uri_defs)
  show ?thesis
    using h3 h4 Lookup_looks_up_exhaustion_uri [OF h1 h2 h3] by blast
qed

subsection \<open>The modelled NextWildcard, and termination\<close>

lemma takeWhile_dropWhile_Nil: "takeWhile P (dropWhile P xs) = []"
  by (induction xs) auto

lemma takeWhile_append_dropWhile:
  "(\<And>x. x \<in> set xs \<Longrightarrow> P x) \<Longrightarrow> takeWhile P (xs @ dropWhile P ys) = xs"
  by (induction xs) (simp_all add: takeWhile_dropWhile_Nil)

lemma filter_dropWhile_neq:
  "filter (\<lambda>c. c = d) (dropWhile (\<lambda>c. c \<noteq> d) xs) = filter (\<lambda>c. c = d) xs"
  by (induction xs) auto

lemma dropWhile_neq_Cons:
  "dropWhile (\<lambda>c. c \<noteq> d) xs \<noteq> [] \<Longrightarrow> \<exists>ys. dropWhile (\<lambda>c. c \<noteq> d) xs = d # ys"
  using hd_dropWhile [of "\<lambda>c. c \<noteq> d" xs]
  by (cases "dropWhile (\<lambda>c. c \<noteq> d) xs") auto

lemma host_labels_no_slash: "CHR ''/'' \<notin> set (host_labels u)"
proof -
  have "CHR ''/'' \<notin> set (uri_host u)"
    unfolding uri_host_def using set_takeWhileD [of "CHR ''/''" "\<lambda>c. c \<noteq> CHR ''/''" u] by blast
  moreover have "set (host_labels u) \<subseteq> set (uri_host u)"
    by (auto simp: host_labels_def dest: in_set_dropD)
  ultimately show ?thesis by blast
qed

lemma uri_host_wildcard:
  assumes "CHR ''/'' \<notin> set ys"
  shows "uri_host (CHR ''*'' # CHR ''.'' # ys @ uri_path u) = CHR ''*'' # CHR ''.'' # ys"
proof -
  have "takeWhile (\<lambda>c. c \<noteq> CHR ''/'') (ys @ dropWhile (\<lambda>c. c \<noteq> CHR ''/'') u) = ys"
    using assms by (intro takeWhile_append_dropWhile) blast
  then show ?thesis by (simp add: uri_host_def uri_path_def)
qed

lemma host_labels_wildcard:
  assumes "CHR ''/'' \<notin> set ys"
  shows "host_labels (CHR ''*'' # CHR ''.'' # ys @ uri_path u) = ys"
  by (simp add: host_labels_def uri_host_wildcard [OF assms])

lemma NextWildcard_success:
  assumes "\<not> snd (NextWildcard exhausted u)"
  shows "\<exists>ys. dropWhile (\<lambda>c. c \<noteq> CHR ''.'') (host_labels u) = CHR ''.'' # ys
            \<and> fst (NextWildcard exhausted u) = CHR ''*'' # CHR ''.'' # ys @ uri_path u"
proof -
  let ?rest = "dropWhile (\<lambda>c. c \<noteq> CHR ''.'') (host_labels u)"
  have ne: "?rest \<noteq> []"
  proof
    assume "?rest = []"
    then have "snd (NextWildcard exhausted u)" by (simp add: NextWildcard_def Let_def)
    with assms show False by blast
  qed
  from dropWhile_neq_Cons [OF ne] obtain ys where ys: "?rest = CHR ''.'' # ys"
    by blast
  have f: "fst (NextWildcard exhausted u) = ''*'' @ ?rest @ uri_path u"
    using ne by (simp add: NextWildcard_def Let_def del: dropWhile_eq_Nil_conv)
  have "fst (NextWildcard exhausted u) = CHR ''*'' # CHR ''.'' # ys @ uri_path u"
    unfolding f ys by simp
  with ys show ?thesis by blast
qed

lemma NextWildcard_fails: "snd (NextWildcard exhausted u) \<longleftrightarrow> num_labels u = 1"
proof -
  have "dropWhile (\<lambda>c. c \<noteq> CHR ''.'') (host_labels u) = []
      \<longleftrightarrow> filter (\<lambda>c. c = CHR ''.'') (host_labels u) = []"
    by (auto simp: dropWhile_eq_Nil_conv filter_empty_conv)
  then show ?thesis
    by (simp add: NextWildcard_def num_labels_def Let_def)
qed

lemma NextWildcard_labels:
  assumes "\<not> snd (NextWildcard exhausted u)"
  shows "Suc (num_labels (fst (NextWildcard exhausted u))) = num_labels u"
proof -
  obtain ys where ys: "dropWhile (\<lambda>c. c \<noteq> CHR ''.'') (host_labels u) = CHR ''.'' # ys"
    and u': "fst (NextWildcard exhausted u) = CHR ''*'' # CHR ''.'' # ys @ uri_path u"
    using NextWildcard_success [OF assms] by blast
  have "set (CHR ''.'' # ys) \<subseteq> set (host_labels u)"
    unfolding ys [symmetric] by (rule subsetI) (rule set_dropWhileD)
  then have "CHR ''/'' \<notin> set ys"
    using host_labels_no_slash [of u] by auto
  then have "host_labels (fst (NextWildcard exhausted u)) = ys"
    unfolding u' by (rule host_labels_wildcard)
  moreover have "filter (\<lambda>c. c = CHR ''.'') (host_labels u)
      = filter (\<lambda>c. c = CHR ''.'') (CHR ''.'' # ys)"
    unfolding ys [symmetric] by (simp add: filter_dropWhile_neq)
  ultimately show ?thesis by (simp add: num_labels_def)
qed

lemma wildcard_iter_labels:
  "n < num_labels u \<Longrightarrow>
     \<not> snd (wildcard_iter (NextWildcard exhausted) n u)
     \<and> num_labels (fst (wildcard_iter (NextWildcard exhausted) n u)) + n = num_labels u"
proof (induction n)
  case 0
  show ?case by simp
next
  case (Suc n)
  let ?v = "fst (wildcard_iter (NextWildcard exhausted) n u)"
  have less: "Suc n < num_labels u" by fact
  then have "n < num_labels u" by arith
  then have IH: "num_labels ?v + n = num_labels u" using Suc.IH by blast
  have "num_labels ?v \<noteq> 1" using IH less by arith
  then have ok: "\<not> snd (NextWildcard exhausted ?v)"
    using NextWildcard_fails [of exhausted ?v] by blast
  then have "Suc (num_labels (fst (NextWildcard exhausted ?v))) = num_labels ?v"
    by (rule NextWildcard_labels)
  then have "num_labels (fst (NextWildcard exhausted ?v)) + Suc n = num_labels u"
    using IH by arith
  then show ?case using ok by (simp only: wildcard_iter.simps) blast
qed

lemma wildcard_iter_exhausted:
  "snd (wildcard_iter (NextWildcard exhausted) (num_labels u) u)"
proof -
  obtain n where n: "num_labels u = Suc n" by (simp add: num_labels_def)
  then have "n < num_labels u" by arith
  then have "num_labels (fst (wildcard_iter (NextWildcard exhausted) n u)) + n = num_labels u"
    using wildcard_iter_labels [of n u exhausted] by blast
  then have "num_labels (fst (wildcard_iter (NextWildcard exhausted) n u)) = 1"
    using n by arith
  then have "snd (NextWildcard exhausted (fst (wildcard_iter (NextWildcard exhausted) n u)))"
    using NextWildcard_fails [of exhausted "fst (wildcard_iter (NextWildcard exhausted) n u)"]
    by blast
  then show ?thesis by (simp only: n wildcard_iter.simps)
qed

lemma Lookup_NextWildcard_returns:
  "\<exists>n \<le> num_labels (ToLower uri).
     Lookup (NextWildcard exhausted) uri r =
       Some (byUri r (fst (wildcard_iter (NextWildcard exhausted) n (ToLower uri))))"
proof -
  let ?nw = "NextWildcard exhausted"
  let ?u = "ToLower uri"
  let ?stop = "\<lambda>i. byUri r (fst (wildcard_iter ?nw i ?u)) \<noteq> None \<or> snd (wildcard_iter ?nw i ?u)"
  let ?n = "LEAST i. ?stop i"
  have last: "?stop (num_labels ?u)"
    using wildcard_iter_exhausted [of exhausted ?u] by blast
  then have stop: "?stop ?n" by (rule LeastI)
  have le: "?n \<le> num_labels ?u" using last by (rule Least_le)
  have before: "byUri r (fst (wildcard_iter ?nw i ?u)) = None \<and> \<not> snd (wildcard_iter ?nw i ?u)"
    if "i < ?n" for i
    using not_less_Least [OF that] by blast
  have "Lookup ?nw uri r = Some (byUri r (fst (wildcard_iter ?nw ?n ?u)))"
    using before stop by (rule Lookup_first_stop)
  with le show ?thesis by blast
qed

text \<open>Claim C8. With the \<open>NextWildcard\<close> modelled from the spec (and whatever uri it
  returns when it fails), \<open>Lookup\<close> returns for every uri and every registry, after at most
  as many iterations as the host has labels left to replace. \<open>NextWildcard\<close> fails exactly
  when one such label is left, and each call that succeeds leaves one label less: so the
  calls succeed \<open>num_labels u - 1\<close> times and the call number \<open>num_labels u\<close> fails. Once a
  call has failed, the loop returns, whatever function is in the place of
  \<open>NextWildcard\<close>.\<close>

theorem Lookup_terminates:
  "(\<exists>n \<le> num_labels (ToLower uri).
      Lookup (NextWildcard exhausted) uri r =
        Some (byUri r (fst (wildcard_iter (NextWildcard exhausted) n (ToLower uri)))))
   \<and> (snd (NextWildcard exhausted u) \<longleftrightarrow> num_labels u = 1)
   \<and> (\<not> snd (NextWildcard exhausted u) \<longrightarrow>
        Suc (num_labels (fst (NextWildcard exhausted u))) = num_labels u)
   \<and> (\<forall>i < num_labels u. \<not> snd (wildcard_iter (NextWildcard exhausted) i u))
   \<and> snd (wildcard_iter (NextWildcard exhausted) (num_labels u) u)
   \<and> Lookup_loop nextWildcard m u True pool = Some pool"
  using Lookup_NextWildcard_returns [of uri exhausted r] NextWildcard_fails [of exhausted u]
    NextWildcard_labels [of exhausted u] wildcard_iter_labels [of _ u exhausted]
    wildcard_iter_exhausted [of exhausted u] Lookup_loop_stop [of pool True nextWildcard m u]
  by blast

theorem Lookup_terminates_witness:
  "\<not> snd (NextWildcard id ''a.b.com'')
   \<and> Suc (num_labels (fst (NextWildcard id ''a.b.com''))) = num_labels ''a.b.com''
   \<and> (1::nat) < num_labels ''a.b.com''
   \<and> \<not> snd (wildcard_iter (NextWildcard id) 1 ''a.b.com'')
   \<and> snd (wildcard_iter (NextWildcard id) (num_labels ''a.b.com'') ''a.b.com'')"
proof -
  have h1: "\<not> snd (NextWildcard id ''a.b.com'')"
    by (simp add: uri_defs)
  have h2: "(1::nat) < num_labels ''a.b.com''"
    by (simp add: uri_defs)
  show ?thesis
    using h1 h2
      Lookup_terminates [of "''A.B.com''" id example_registry "''a.b.com''" "NextWildcard id"
        Map.empty None]
    by blast
qed

subsection \<open>Starting the pruning cycle\<close>

text \<open>Claim C3, as stated, fails: \<open>StartPruningCycle\<close> has no test of \<open>r.ticker\<close>. With a
  positive interval, each call creates a ticker and assigns it to \<open>r.ticker\<close>; the ticker
  of the call before is not stopped. After two calls two tickers are active.\<close>

theorem StartPruningCycle_twice_counterexample:
  "0 < pruneStaleDropletsInterval (registry (NewSystem example_config))
   \<and> \<not> active_tickers (StartPruningCycle (StartPruningCycle (NewSystem example_config))) \<le> 1"
  by (simp add: active_tickers_def StartPruningCycle_def NewSystem_def NewRouteRegistry_def
      example_config_def Let_def)

text \<open>Claim C3, amended. With a positive interval, each call of \<open>StartPruningCycle\<close> creates
  one new active ticker and one new sweeping goroutine, makes the registry point to the
  new ticker and leaves the tickers created before as they are, so that two calls add two
  active tickers. With an interval of zero or less it changes nothing.\<close>

theorem StartPruningCycle_adds_ticker:
  "(0 < pruneStaleDropletsInterval (registry s) \<longrightarrow>
      tickers (StartPruningCycle s) = tickers s @
        [\<lparr>period = pruneStaleDropletsInterval (registry s), running = True, pending = False\<rparr>]
      \<and> active_tickers (StartPruningCycle s) = Suc (active_tickers s)
      \<and> ticker (registry (StartPruningCycle s)) = Some (length (tickers s))
      \<and> sweepers (StartPruningCycle s) = sweepers s @ [AtSelect]
      \<and> active_tickers (StartPruningCycle (StartPruningCycle s)) = Suc (Suc (active_tickers s)))
   \<and> (pruneStaleDropletsInterval (registry s) \<le> 0 \<longrightarrow> StartPruningCycle s = s)"
  by (simp add: active_tickers_def StartPruningCycle_def Let_def)

theorem StartPruningCycle_adds_ticker_witness:
  "0 < pruneStaleDropletsInterval (registry (NewSystem example_config))
   \<and> active_tickers (StartPruningCycle (NewSystem example_config)) = 1
   \<and> active_tickers (StartPruningCycle (StartPruningCycle (NewSystem example_config))) = 2
   \<and> pruneStaleDropletsInterval (registry (NewSystem SpecConfig)) \<le> 0
   \<and> StartPruningCycle (NewSystem SpecConfig) = NewSystem SpecConfig"
proof -
  have h1: "0 < pruneStaleDropletsInterval (registry (NewSystem example_config))"
    by (simp add: NewSystem_def NewRouteRegistry_def example_config_def)
  have h2: "pruneStaleDropletsInterval (registry (NewSystem SpecConfig)) \<le> 0"
    by (simp add: NewSystem_def NewRouteRegistry_def SpecConfig_def)
  have a: "active_tickers (NewSystem example_config) = 0"
    by (simp add: active_tickers_def NewSystem_def)
  show ?thesis
    using h1 h2 a StartPruningCycle_adds_ticker [of "NewSystem example_config"]
      StartPruningCycle_adds_ticker [of "NewSystem SpecConfig"]
    by simp
qed

subsection \<open>Stopping the pruning cycle\<close>

lemma nth_list_update_if:
  "xs[i := x] ! j = (if i = j \<and> i < length xs then x else xs ! j)"
  by (cases "i < length xs") (simp_all add: nth_list_update list_update_beyond)

lemma step_keeps_stopped:
  assumes "step e s = Some s'" and "h < length (tickers s)" and "\<not> running (tickers s ! h)"
  shows "h < length (tickers s') \<and> \<not> running (tickers s' ! h)"
proof (cases e)
  case Start
  then show ?thesis
    using assms by (auto simp: StartPruningCycle_def Let_def nth_append split: if_splits)
next
  case Stop
  then show ?thesis
    using assms
    by (auto simp: StopPruningCycle_def nth_list_update_if split: option.splits if_splits)
next
  case (Tick h')
  then show ?thesis
    using assms by (auto simp: nth_list_update_if split: if_splits)
next
  case (Select g)
  then show ?thesis
    using assms by (auto split: if_splits option.splits)
next
  case (Receive g)
  then show ?thesis
    using assms by (auto simp: nth_list_update_if split: if_splits sweeper.splits)
next
  case (Prune g clock)
  then show ?thesis
    using assms by (auto split: if_splits)
qed

lemma run_keeps_stopped:
  "run es s = Some s' \<Longrightarrow> h < length (tickers s) \<Longrightarrow> \<not> running (tickers s ! h) \<Longrightarrow>
   h < length (tickers s') \<and> \<not> running (tickers s' ! h)"
proof (induction es arbitrary: s)
  case Nil
  then show ?case by simp
next
  case (Cons e es)
  from Cons.prems(1) obtain s1 where s1: "step e s = Some s1" "run es s1 = Some s'"
    by (auto split: option.splits)
  from step_keeps_stopped [OF s1(1) Cons.prems(2,3)]
  have "h < length (tickers s1)" "\<not> running (tickers s1 ! h)" by simp_all
  with s1(2) show ?case by (rule Cons.IH)
qed

text \<open>Claim C4, as stated, fails in its second part: \<open>StopPruningCycle\<close> stops the ticker
  and does not wait for the goroutine. A goroutine that has received a tick and has not
  yet taken the lock in \<open>pruneStaleDroplets\<close> sweeps after \<open>StopPruningCycle\<close> has returned:
  here the route \<open>foo.com\<close> is in the table when \<open>Stop\<close> returns and is pruned by the
  sweep that follows.\<close>

theorem sweep_after_StopPruningCycle:
  "table_after [Start, Select 0, Tick 0, Receive 0, Stop] example_system ''foo.com''
     = Some (Some \<lparr>endpoints = [(endpoint_a, 2)], threshold = 10\<rparr>)
   \<and> table_after [Start, Select 0, Tick 0, Receive 0, Stop, Prune 0 late_clock] example_system
        ''foo.com''
     = Some None"
  by (simp add: table_after_def example_system_def StartPruningCycle_def StopPruningCycle_def
      pruneStaleDroplets_byUri late_clock_def Register_def example_defs Let_def)

text \<open>Claim C4, amended. \<open>StopPruningCycle\<close> changes nothing when the cycle was never
  started (\<open>r.ticker\<close> is \<open>nil\<close>, as in a new registry). Otherwise it stops the ticker the
  registry points to and changes nothing else; that ticker stays stopped through every
  later step and sends no tick any more.\<close>

theorem StopPruningCycle_stops_ticker:
  "(ticker (registry s) = None \<longrightarrow> StopPruningCycle s = s)
   \<and> StopPruningCycle (NewSystem c) = NewSystem c
   \<and> registry (StopPruningCycle s) = registry s
   \<and> sweepers (StopPruningCycle s) = sweepers s
   \<and> (ticker (registry s) = Some h \<and> h < length (tickers s)
        \<and> run es (StopPruningCycle s) = Some s'
      \<longrightarrow> h < length (tickers s') \<and> \<not> running (tickers s' ! h) \<and> step (Tick h) s' = None)"
proof -
  have "h < length (tickers s') \<and> \<not> running (tickers s' ! h) \<and> step (Tick h) s' = None"
    if a: "ticker (registry s) = Some h" "h < length (tickers s)"
      "run es (StopPruningCycle s) = Some s'"
  proof -
    have "h < length (tickers (StopPruningCycle s))"
        "\<not> running (tickers (StopPruningCycle s) ! h)"
      using a(1,2) by (simp_all add: StopPruningCycle_def)
    with a(3) have "h < length (tickers s') \<and> \<not> running (tickers s' ! h)"
      by (rule run_keeps_stopped)
    then show ?thesis by simp
  qed
  moreover have "StopPruningCycle (NewSystem c) = NewSystem c"
    by (simp add: StopPruningCycle_def NewSystem_def NewRouteRegistry_def)
  moreover have "registry (StopPruningCycle s) = registry s"
      "sweepers (StopPruningCycle s) = sweepers s"
      "ticker (registry s) = None \<longrightarrow> StopPruningCycle s = s"
    by (simp_all add: StopPruningCycle_def split: option.splits)
  ultimately show ?thesis by blast
qed

theorem StopPruningCycle_stops_ticker_witness:
  "ticker (registry (NewSystem example_config)) = None
   \<and> StopPruningCycle (NewSystem example_config) = NewSystem example_config
   \<and> ticker (registry (StartPruningCycle (NewSystem example_config))) = Some 0
   \<and> 0 < length (tickers (StartPruningCycle (NewSystem example_config)))
   \<and> run [Start] (StopPruningCycle (StartPruningCycle (NewSystem example_config)))
       = Some (StartPruningCycle (StopPruningCycle (StartPruningCycle (NewSystem example_config))))
   \<and> step (Tick 0)
         (StartPruningCycle (StopPruningCycle (StartPruningCycle (NewSystem example_config))))
       = None"
proof -
  let ?s = "StartPruningCycle (NewSystem example_config)"
  let ?t = "StartPruningCycle (StopPruningCycle ?s)"
  have h0: "ticker (registry (NewSystem example_config)) = None"
    by (simp add: NewSystem_def NewRouteRegistry_def)
  have h1: "ticker (registry ?s) = Some 0 \<and> 0 < length (tickers ?s)
      \<and> run [Start] (StopPruningCycle ?s) = Some ?t"
    by (simp add: StartPruningCycle_def NewSystem_def NewRouteRegistry_def example_config_def
        Let_def)
  show ?thesis
    using h0 h1 StopPruningCycle_stops_ticker [of "NewSystem example_config" example_config]
      StopPruningCycle_stops_ticker [of ?s example_config 0 "[Start]" ?t]
    by blast
qed

end
